theory Spec2Isabelle
  imports Main "HOL-Library.Sublist" "HOL-Library.Multiset"
begin

section \<open>ChatRelayBot: the relay pipeline of main.go\<close>

text \<open>
  The development follows \<^verbatim>\<open>main.go\<close>: the functions of Go's \<^verbatim>\<open>strings\<close> package
  that the bot calls, the worker pool (\<^verbatim>\<open>WorkerPool\<close>, lines 46-76), the dispatchers
  \<^verbatim>\<open>processMention\<close> (168-189) and \<^verbatim>\<open>processDirectMessage\<close> (337-364), and
  \<^verbatim>\<open>processTask\<close> (191-255). Go strings are byte sequences, here \<^typ>\<open>string\<close>.
\<close>

subsection \<open>The functions of package strings used by the bot\<close>

text \<open>\<^verbatim>\<open>strings.HasPrefix\<close> and \<^verbatim>\<open>strings.TrimPrefix\<close>.\<close>

definition HasPrefix :: "string \<Rightarrow> string \<Rightarrow> bool" where
  "HasPrefix s p = (take (length p) s = p)"

definition TrimPrefix :: "string \<Rightarrow> string \<Rightarrow> string" where
  "TrimPrefix s p = (if HasPrefix s p then drop (length p) s else s)"

text \<open>
  \<^verbatim>\<open>strings.ReplaceAll(s, old, "")\<close>, the only way the bot calls it: the non-overlapping
  occurrences of \<open>old\<close> are deleted in one pass from the left. With an empty \<open>old\<close>
  and the empty replacement Go returns \<open>s\<close>.
\<close>

fun ReplaceAll :: "string \<Rightarrow> string \<Rightarrow> string" where
  "ReplaceAll [] old = []"
| "ReplaceAll (c # cs) old =
     (if old \<noteq> [] \<and> HasPrefix (c # cs) old
      then ReplaceAll (drop (length old - 1) cs) old
      else c # ReplaceAll cs old)"

text \<open>
  \<^verbatim>\<open>strings.TrimSpace\<close> removes the leading and the trailing white space "as defined by
  Unicode". It decodes UTF-8, so on bytes the white space runes are the following byte
  sequences: the six ASCII ones, U+0085, U+00A0, U+1680, U+2000 to U+200A, U+2028,
  U+2029, U+202F, U+205F and U+3000.
\<close>

definition spaceRunes :: "string list" where
  "spaceRunes =
    [[CHR 0x09], [CHR 0x0A], [CHR 0x0B], [CHR 0x0C], [CHR 0x0D], [CHR 0x20],
     [CHR 0xC2, CHR 0x85], [CHR 0xC2, CHR 0xA0],
     [CHR 0xE1, CHR 0x9A, CHR 0x80],
     [CHR 0xE2, CHR 0x80, CHR 0x80], [CHR 0xE2, CHR 0x80, CHR 0x81],
     [CHR 0xE2, CHR 0x80, CHR 0x82], [CHR 0xE2, CHR 0x80, CHR 0x83],
     [CHR 0xE2, CHR 0x80, CHR 0x84], [CHR 0xE2, CHR 0x80, CHR 0x85],
     [CHR 0xE2, CHR 0x80, CHR 0x86], [CHR 0xE2, CHR 0x80, CHR 0x87],
     [CHR 0xE2, CHR 0x80, CHR 0x88], [CHR 0xE2, CHR 0x80, CHR 0x89],
     [CHR 0xE2, CHR 0x80, CHR 0x8A],
     [CHR 0xE2, CHR 0x80, CHR 0xA8], [CHR 0xE2, CHR 0x80, CHR 0xA9],
     [CHR 0xE2, CHR 0x80, CHR 0xAF], [CHR 0xE2, CHR 0x81, CHR 0x9F],
     [CHR 0xE3, CHR 0x80, CHR 0x80]]"

text \<open>The width of the white space rune a string starts with, 0 when there is none.\<close>

definition leadingSpace :: "string \<Rightarrow> nat" where
  "leadingSpace s =
     (case List.find (\<lambda>p. HasPrefix s p) spaceRunes of None \<Rightarrow> 0 | Some p \<Rightarrow> length p)"

text \<open>The same at the end of a string (\<^verbatim>\<open>utf8.DecodeLastRuneInString\<close>).\<close>

definition trailingSpace :: "string \<Rightarrow> nat" where
  "trailingSpace s =
     (case List.find (\<lambda>p. HasPrefix (rev s) (rev p)) spaceRunes of
        None \<Rightarrow> 0 | Some p \<Rightarrow> length p)"

function TrimLeftSpace :: "string \<Rightarrow> string" where
  "TrimLeftSpace s =
     (if leadingSpace s = 0 \<or> s = [] then s else TrimLeftSpace (drop (leadingSpace s) s))"
  by pat_completeness auto
termination
  by (relation "measure length") auto

function TrimRightSpace :: "string \<Rightarrow> string" where
  "TrimRightSpace s =
     (if trailingSpace s = 0 \<or> s = [] then s
      else TrimRightSpace (take (length s - trailingSpace s) s))"
  by pat_completeness auto
termination
  by (relation "measure length") auto

definition TrimSpace :: "string \<Rightarrow> string" where
  "TrimSpace s = TrimRightSpace (TrimLeftSpace s)"

text \<open>
  \<^verbatim>\<open>strings.Index(s, sep)\<close> for a non-empty \<open>sep\<close>: the offset of the leftmost
  occurrence, \<open>None\<close> for Go's -1.
\<close>

fun Index :: "string \<Rightarrow> string \<Rightarrow> nat option" where
  "Index [] sep = (if sep = [] then Some 0 else None)"
| "Index (c # cs) sep =
     (if HasPrefix (c # cs) sep then Some 0
      else case Index cs sep of None \<Rightarrow> None | Some m \<Rightarrow> Some (Suc m))"

text \<open>
  \<^verbatim>\<open>strings.SplitAfter(s, sep)\<close> for a non-empty \<open>sep\<close> (the bot's is \<^verbatim>\<open>". "\<close>):
  \<^verbatim>\<open>genSplit\<close> cuts after the leftmost occurrence of \<open>sep\<close>, again and again, and
  the rest of the string, which may be empty, is the last piece.
\<close>

function SplitAfter :: "string \<Rightarrow> string \<Rightarrow> string list" where
  "SplitAfter s sep =
     (case Index s sep of
        None \<Rightarrow> [s]
      | Some m \<Rightarrow>
          if sep = [] then [s]
          else take (m + length sep) s # SplitAfter (drop (m + length sep) s) sep)"
  by pat_completeness auto

lemma HasPrefix_length: "HasPrefix s p \<Longrightarrow> length p \<le> length s"
proof -
  assume "HasPrefix s p"
  then have "length (take (length p) s) = length p"
    by (simp add: HasPrefix_def)
  then show ?thesis by simp
qed

lemma Index_bound: "Index s sep = Some m \<Longrightarrow> m + length sep \<le> length s"
proof (induction s arbitrary: m)
  case Nil
  then show ?case by (simp split: if_splits)
next
  case (Cons c cs)
  show ?case
  proof (cases "HasPrefix (c # cs) sep")
    case True
    then have "length sep \<le> length (c # cs)"
      by (rule HasPrefix_length)
    with True Cons.prems show ?thesis by simp
  next
    case False
    with Cons.prems obtain k where "Index cs sep = Some k" "m = Suc k"
      by (auto split: option.splits)
    with Cons.IH show ?thesis by fastforce
  qed
qed

termination SplitAfter
proof (relation "measure (\<lambda>(s, sep). length s)")
  show "wf (measure (\<lambda>(s, sep). length s))" by simp
next
  fix s sep :: string and m
  assume "Index s sep = Some m" "sep \<noteq> []"
  then have "0 < length sep" "m + length sep \<le> length s"
    using Index_bound by auto
  then have "length s - (m + length sep) < length s"
    by arith
  then show "((drop (m + length sep) s, sep), (s, sep)) \<in> measure (\<lambda>(s, sep). length s)"
    by simp
qed

subsection \<open>Data: events, wire types, effects\<close>

text \<open>
  \<^verbatim>\<open>slackevents.AppMentionEvent\<close> and \<^verbatim>\<open>slackevents.MessageEvent\<close>, with the fields
  the bot reads. Field names carry a prefix, records of one theory sharing a name space.
\<close>

record AppMentionEvent =
  ev_User :: string
  ev_Channel :: string
  ev_Text :: string
  ev_BotID :: string

record MessageEvent =
  msg_User :: string
  msg_Channel :: string
  msg_Text :: string
  msg_BotID :: string
  msg_ChannelType :: string

text \<open>\<^verbatim>\<open>ChatRequest\<close> (lines 99-103) and \<^verbatim>\<open>ChatResponse\<close> (lines 105-112).\<close>

record ChatRequest =
  UserID :: string
  Query :: string
  ChannelID :: string

record ChatResponse =
  ID :: int
  Event :: string
  Text :: string
  Status :: string
  Full :: string
  Error :: string

text \<open>
  What \<^verbatim>\<open>processTask\<close> reads of an \<^verbatim>\<open>*http.Response\<close>: the status code is a field
  of the response, the code never looks at it.
\<close>

record Response =
  StatusCode :: nat
  ContentType :: string
  Body :: string

text \<open>
  The outcome of \<^verbatim>\<open>http.DefaultClient.Do\<close>: an error (no connection, or the context
  was cancelled) or a response, whatever its status.
\<close>

datatype DoError = ConnectionFailed | ContextCanceled

text \<open>
  The world outside the program. \<open>backend\<close> answers the request of attempt \<open>i\<close>
  while the context is alive: \<open>None\<close> is a connection-level failure. \<open>scanLines\<close>
  is the sequence of tokens a \<^verbatim>\<open>bufio.Scanner\<close> yields on a body, \<open>unmarshal\<close> is
  \<^verbatim>\<open>json.Unmarshal\<close> into a \<^verbatim>\<open>ChatResponse\<close> and \<open>decode\<close> is
  \<^verbatim>\<open>json.NewDecoder(body).Decode\<close>, both \<open>None\<close> when they return an error.
\<close>

record world =
  backend :: "nat \<Rightarrow> ChatRequest \<Rightarrow> Response option"
  scanLines :: "string \<Rightarrow> string list"
  unmarshal :: "string \<Rightarrow> ChatResponse option"
  decode :: "string \<Rightarrow> ChatResponse option"

text \<open>
  A \<^verbatim>\<open>context.Context\<close> on a virtual clock in milliseconds: \<open>None\<close> is never
  cancelled (\<^verbatim>\<open>context.Background()\<close>), \<open>Some t\<close> is cancelled from time \<open>t\<close> on.
  Only \<^verbatim>\<open>time.Sleep\<close> moves the clock: a call of the backend or of the sink takes no
  time on it.
\<close>

type_synonym Context = "nat option"

definition Done :: "Context \<Rightarrow> nat \<Rightarrow> bool" where
  "Done ctx now = (case ctx of None \<Rightarrow> False | Some t \<Rightarrow> t \<le> now)"

text \<open>
  The calls \<^verbatim>\<open>processTask\<close> makes, in order: \<^verbatim>\<open>http.DefaultClient.Do\<close> with the
  attempt index, \<^verbatim>\<open>time.Sleep\<close> in milliseconds, \<^verbatim>\<open>api.PostMessageContext\<close> with
  the channel and the text (its result is discarded by the code). \<open>NilDereference\<close>
  is the panic of a method call on a \<^verbatim>\<open>nil\<close> response.
\<close>

datatype effect = Do nat | Sleep nat | PostMessage string string | NilDereference

subsection \<open>processTask (lines 191-255)\<close>

text \<open>
  \<^verbatim>\<open>http.DefaultClient.Do(req)\<close> on a request made with \<^verbatim>\<open>NewRequestWithContext\<close>: Go's
  pair \<^verbatim>\<open>(resp, err)\<close>. A cancelled context makes the call fail without an answer.
  The URL of the configuration is taken to be well-formed, so that the request is made.
\<close>

definition clientDo ::
  "world \<Rightarrow> Context \<Rightarrow> ChatRequest \<Rightarrow> nat \<Rightarrow> nat \<Rightarrow> Response option \<times> DoError option"
where
  "clientDo w ctx req attempt now =
     (if Done ctx now then (None, Some ContextCanceled)
      else case backend w attempt req of
             None \<Rightarrow> (None, Some ConnectionFailed)
           | Some r \<Rightarrow> (Some r, None))"

text \<open>
  Lines 204-212: \<^verbatim>\<open>for attempt := 0; attempt < 3; attempt++\<close>. The loop leaves through
  \<^verbatim>\<open>break\<close> when \<^verbatim>\<open>err == nil\<close>, and sleeps \<^verbatim>\<open>(attempt+1) * time.Second\<close> after
  every failed call. It returns \<^verbatim>\<open>resp\<close>, \<^verbatim>\<open>err\<close>, the clock and the calls made.
\<close>

function retryLoop ::
  "world \<Rightarrow> Context \<Rightarrow> ChatRequest \<Rightarrow> nat \<Rightarrow> nat \<Rightarrow> Response option \<Rightarrow> DoError option
     \<Rightarrow> Response option \<times> DoError option \<times> nat \<times> effect list"
where
  "retryLoop w ctx req attempt now resp err =
     (if attempt < 3 then
        (case clientDo w ctx req attempt now of
           (resp', None) \<Rightarrow> (resp', None, now, [Do attempt])
         | (resp', Some e) \<Rightarrow>
             (case retryLoop w ctx req (attempt + 1) (now + (attempt + 1) * 1000) resp' (Some e) of
                (r, e', t, es) \<Rightarrow> (r, e', t, Do attempt # Sleep ((attempt + 1) * 1000) # es)))
      else (resp, err, now, []))"
  by pat_completeness auto
termination
  by (relation "measure (\<lambda>(w, ctx, req, attempt, now, resp, err). 3 - attempt)") auto

text \<open>
  Lines 224-241, over the tokens of the scanner: the \<^verbatim>\<open>select\<close> on \<^verbatim>\<open>ctx.Done()\<close>
  returns from \<^verbatim>\<open>processTask\<close>; a line with the prefix \<^verbatim>\<open>"data: "\<close> that unmarshals
  and whose event is \<^verbatim>\<open>"message_part"\<close> is posted, followed by a sleep of 500 ms; every
  other line is passed over and the loop goes on to the next token.
\<close>

fun streamLoop :: "world \<Rightarrow> Context \<Rightarrow> string \<Rightarrow> string list \<Rightarrow> nat \<Rightarrow> effect list" where
  "streamLoop w ctx channel [] now = []"
| "streamLoop w ctx channel (line # rest) now =
     (if Done ctx now then []
      else if HasPrefix line ''data: '' then
        (case unmarshal w (TrimPrefix line ''data: '') of
           Some msg \<Rightarrow>
             if Event msg = ''message_part''
             then PostMessage channel (Text msg) # Sleep 500 #
                    streamLoop w ctx channel rest (now + 500)
             else streamLoop w ctx channel rest now
         | None \<Rightarrow> streamLoop w ctx channel rest now)
      else streamLoop w ctx channel rest now)"

text \<open>Lines 246-252: the loop over the chunks of \<^verbatim>\<open>strings.SplitAfter\<close>.\<close>

fun chunkLoop :: "string \<Rightarrow> string list \<Rightarrow> effect list" where
  "chunkLoop channel [] = []"
| "chunkLoop channel (chunk # rest) =
     (if TrimSpace chunk \<noteq> []
      then PostMessage channel (TrimSpace chunk) # Sleep 500 # chunkLoop channel rest
      else chunkLoop channel rest)"

text \<open>
  \<^verbatim>\<open>processTask\<close>, from the clock \<open>now\<close>: the request, the retry loop, the fallback
  message when \<^verbatim>\<open>err != nil\<close>, then the \<^verbatim>\<open>switch\<close> on the content type. A
  \<^verbatim>\<open>nil\<close> response with a \<^verbatim>\<open>nil\<close> error would panic at \<^verbatim>\<open>resp.Body\<close>.
\<close>

definition processTask :: "world \<Rightarrow> Context \<Rightarrow> AppMentionEvent \<Rightarrow> string \<Rightarrow> nat \<Rightarrow> effect list" where
  "processTask w ctx ev query now =
     (let req = \<lparr>UserID = ev_User ev, Query = query, ChannelID = ev_Channel ev\<rparr> in
      case retryLoop w ctx req 0 now None None of
        (resp, Some e, t, es) \<Rightarrow>
          es @ [PostMessage (ev_Channel ev) ''Service unavailable, please try later'']
      | (None, None, t, es) \<Rightarrow> es @ [NilDereference]
      | (Some r, None, t, es) \<Rightarrow>
          es @
          (if ContentType r = ''text/event-stream''
           then streamLoop w ctx (ev_Channel ev) (scanLines w (Body r)) t
           else case decode w (Body r) of
                  Some result \<Rightarrow> chunkLoop (ev_Channel ev) (SplitAfter (Full result) ''. '')
                | None \<Rightarrow> []))"

text \<open>The sink calls of a run and its calls of the backend.\<close>

fun posts :: "effect list \<Rightarrow> (string \<times> string) list" where
  "posts [] = []"
| "posts (PostMessage c t # es) = (c, t) # posts es"
| "posts (e # es) = posts es"

fun attempts :: "effect list \<Rightarrow> nat list" where
  "attempts [] = []"
| "attempts (Do i # es) = i # attempts es"
| "attempts (e # es) = attempts es"

subsection \<open>The worker pool (lines 46-76)\<close>

text \<open>
  A worker goroutine is waiting in \<^verbatim>\<open>range p.tasks\<close>, is inside \<^verbatim>\<open>task()\<close>, or has
  left the loop and called \<^verbatim>\<open>wg.Done()\<close>.
\<close>

datatype 'a worker = Idle | Running 'a | Exited

datatype phase = NotCalled | Waiting | Returned

text \<open>
  The pool: the buffer of the channel \<^verbatim>\<open>tasks\<close>, its capacity, whether it is closed,
  the workers, the counter of the wait group, and how far a call of \<^verbatim>\<open>Shutdown\<close> has
  come. \<open>accepted\<close> and \<open>ran\<close> are the history: the tasks sent into the channel and
  the tasks whose call has returned.
\<close>

record 'a WorkerPool =
  tasks :: "'a list"
  capacity :: nat
  closed :: bool
  workers :: "'a worker list"
  wg :: nat
  shutdown :: phase
  accepted :: "'a list"
  ran :: "'a list"

text \<open>
  Go panics on a send on a closed channel (the specification's \<open>PoolClosed\<close>) and on
  closing a closed channel; a goroutine that cannot go on is blocked.
\<close>

datatype panic = PoolClosed | CloseOfClosedChannel

datatype 'a outcome = Ok 'a | Blocked | Panic panic

definition NewWorkerPool :: "nat \<Rightarrow> 'a WorkerPool" where
  "NewWorkerPool maxWorkers =
     \<lparr>tasks = [], capacity = maxWorkers * 2, closed = False,
      workers = replicate maxWorkers Idle, wg = maxWorkers, shutdown = NotCalled,
      accepted = [], ran = []\<rparr>"

text \<open>
  \<^verbatim>\<open>Submit\<close>: the send \<^verbatim>\<open>p.tasks <- task\<close>. It panics on a closed channel, puts the
  task at the end of the buffer when there is room, and blocks the caller otherwise. (A
  task handed over to a waiting worker is a send followed by that worker's receive.)
\<close>

definition Submit :: "'a WorkerPool \<Rightarrow> 'a \<Rightarrow> 'a WorkerPool outcome" where
  "Submit p task =
     (if closed p then Panic PoolClosed
      else if length (tasks p) < capacity p
      then Ok (p\<lparr>tasks := tasks p @ [task], accepted := accepted p @ [task]\<rparr>)
      else Blocked)"

text \<open>
  One step of one goroutine. A worker receives the head of the buffer (a closed channel
  still hands out what it holds), finishes its task, or leaves the loop when the channel is
  closed and empty. \<^verbatim>\<open>Shutdown\<close> is \<^verbatim>\<open>close(p.tasks)\<close> and then \<^verbatim>\<open>p.wg.Wait()\<close>,
  which returns when the counter is 0. A task is opaque here: what it does is
  \<open>runTask\<close> below, and it is taken to return.
\<close>

datatype 'a action =
  CallSubmit 'a | Receive nat | Finish nat | Leave nat | ShutdownClose | ShutdownWait

fun step :: "'a action \<Rightarrow> 'a WorkerPool \<Rightarrow> 'a WorkerPool outcome" where
  "step (CallSubmit task) p = Submit p task"
| "step (Receive i) p =
     (if i < length (workers p) \<and> workers p ! i = Idle \<and> tasks p \<noteq> []
      then Ok (p\<lparr>tasks := tl (tasks p), workers := (workers p)[i := Running (hd (tasks p))]\<rparr>)
      else Blocked)"
| "step (Finish i) p =
     (if i < length (workers p) then
        (case workers p ! i of
           Running task \<Rightarrow> Ok (p\<lparr>workers := (workers p)[i := Idle], ran := ran p @ [task]\<rparr>)
         | _ \<Rightarrow> Blocked)
      else Blocked)"
| "step (Leave i) p =
     (if i < length (workers p) \<and> workers p ! i = Idle \<and> tasks p = [] \<and> closed p
      then Ok (p\<lparr>workers := (workers p)[i := Exited], wg := wg p - 1\<rparr>)
      else Blocked)"
| "step ShutdownClose p =
     (if closed p then Panic CloseOfClosedChannel
      else Ok (p\<lparr>closed := True, shutdown := Waiting\<rparr>))"
| "step ShutdownWait p =
     (if shutdown p = Waiting \<and> wg p = 0 then Ok (p\<lparr>shutdown := Returned\<rparr>) else Blocked)"

text \<open>A schedule is a list of steps; it ends at the first step that blocks or panics.\<close>

fun run :: "'a action list \<Rightarrow> 'a WorkerPool \<Rightarrow> 'a WorkerPool outcome" where
  "run [] p = Ok p"
| "run (a # as) p =
     (case step a p of Ok p' \<Rightarrow> run as p' | Blocked \<Rightarrow> Blocked | Panic x \<Rightarrow> Panic x)"

subsection \<open>The dispatchers (lines 168-189 and 337-364)\<close>

text \<open>
  The closure handed to the pool: \<^verbatim>\<open>func() { processTask(ctx, api, ev, query) }\<close>.
\<close>

datatype task = Task Context AppMentionEvent string

definition runTask :: "world \<Rightarrow> task \<Rightarrow> nat \<Rightarrow> effect list" where
  "runTask w t now = (case t of Task ctx ev query \<Rightarrow> processTask w ctx ev query now)"

definition cleanQuery :: "AppMentionEvent \<Rightarrow> string" where
  "cleanQuery ev = TrimSpace (ReplaceAll (ev_Text ev) (''<@'' @ ev_BotID ev @ ''>''))"

definition processMention ::
  "Context \<Rightarrow> AppMentionEvent \<Rightarrow> task WorkerPool \<Rightarrow> task WorkerPool outcome" where
  "processMention ctx ev pool =
     (if cleanQuery ev = [] then Ok pool
      else Submit pool (Task ctx ev (cleanQuery ev)))"

definition processDirectMessage ::
  "Context \<Rightarrow> MessageEvent \<Rightarrow> task WorkerPool \<Rightarrow> task WorkerPool outcome" where
  "processDirectMessage ctx ev pool =
     (if msg_BotID ev \<noteq> [] \<or> msg_Text ev = [] then Ok pool
      else if msg_ChannelType ev \<noteq> ''im'' then Ok pool
      else Submit pool
             (Task ctx \<lparr>ev_User = msg_User ev, ev_Channel = msg_Channel ev,
                        ev_Text = msg_Text ev, ev_BotID = []\<rparr> (msg_Text ev)))"

subsection \<open>Vocabulary of the properties\<close>

text \<open>The request \<^verbatim>\<open>processTask\<close> marshals for an event and a query (lines 195-199).\<close>

definition request :: "AppMentionEvent \<Rightarrow> string \<Rightarrow> ChatRequest" where
  "request ev query = \<lparr>UserID = ev_User ev, Query = query, ChannelID = ev_Channel ev\<rparr>"

text \<open>
  The first of the three attempts that reaches the backend, with its response, in a
  world where the context stays alive; \<open>None\<close> when all three fail to connect.
\<close>

definition firstAnswer :: "world \<Rightarrow> ChatRequest \<Rightarrow> (nat \<times> Response) option" where
  "firstAnswer w req =
     (case backend w 0 req of
        Some r \<Rightarrow> Some (0, r)
      | None \<Rightarrow>
         (case backend w 1 req of
            Some r \<Rightarrow> Some (1, r)
          | None \<Rightarrow> (case backend w 2 req of Some r \<Rightarrow> Some (2, r) | None \<Rightarrow> None)))"

text \<open>
  The calls of the retry loop when attempt \<open>k\<close> is the first to connect, and the time
  it has slept by then.
\<close>

definition retryTrace :: "nat \<Rightarrow> effect list" where
  "retryTrace k = concat (map (\<lambda>i. [Do i, Sleep ((i + 1) * 1000)]) [0..<k]) @ [Do k]"

definition backoff :: "nat \<Rightarrow> nat" where
  "backoff k = sum_list (map (\<lambda>i. (i + 1) * 1000) [0..<k])"

text \<open>
  The data records of a stream: the lines with the prefix \<^verbatim>\<open>"data: "\<close> whose rest
  unmarshals, in the order of arrival.
\<close>

definition dataRecords :: "world \<Rightarrow> string list \<Rightarrow> ChatResponse list" where
  "dataRecords w lines =
     List.map_filter
       (\<lambda>line. if HasPrefix line ''data: '' then unmarshal w (TrimPrefix line ''data: '')
               else None)
       lines"

text \<open>
  The specification's reading of a stream, in its words: one fragment for every record of
  kind fragment (\<^verbatim>\<open>message_part\<close>), the iteration stopping at the first terminal record
  (\<^verbatim>\<open>stream_end\<close>). It is compared with \<open>streamLoop\<close> below.
\<close>

definition specFragments :: "ChatResponse list \<Rightarrow> string list" where
  "specFragments records =
     map Text
       (filter (\<lambda>m. Event m = ''message_part'')
          (takeWhile (\<lambda>m. Event m \<noteq> ''stream_end'') records))"

text \<open>
  For the pool: the task a worker is executing, the tasks in execution in the pool, the
  workers that have not left their loop, and the tasks a schedule submits.
\<close>

fun busy :: "'a worker \<Rightarrow> 'a multiset" where
  "busy (Running task) = {#task#}"
| "busy w = {#}"

definition inFlight :: "'a worker list \<Rightarrow> 'a multiset" where
  "inFlight ws = sum_list (map busy ws)"

fun alive :: "'a worker \<Rightarrow> nat" where
  "alive Exited = 0"
| "alive w = 1"

fun submissions :: "'a action list \<Rightarrow> 'a list" where
  "submissions [] = []"
| "submissions (CallSubmit task # as) = task # submissions as"
| "submissions (a # as) = submissions as"

text \<open>
  The invariant of the pool: every accepted task is in the buffer, in execution or has
  run; the wait group counts the workers still in their loop; a worker has left only if
  the channel is closed and empty; \<^verbatim>\<open>Shutdown\<close> closes before it waits and returns only
  at counter 0.
\<close>

definition poolInv :: "'a WorkerPool \<Rightarrow> bool" where
  "poolInv p =
     (mset (accepted p) = mset (tasks p) + inFlight (workers p) + mset (ran p)
      \<and> wg p = sum_list (map alive (workers p))
      \<and> (if Exited \<in> set (workers p) then closed p \<and> tasks p = [] else True)
      \<and> (if shutdown p = NotCalled then True else closed p)
      \<and> (if shutdown p = Returned then wg p = 0 else True))"

text \<open>
  What is left to do before a waiting \<^verbatim>\<open>Shutdown\<close> can return: three steps for a task in
  the buffer (receive, finish, leave), two for a task in execution, one for an idle worker.
\<close>

fun weight :: "'a worker \<Rightarrow> nat" where
  "weight Idle = 1"
| "weight (Running task) = 2"
| "weight Exited = 0"

definition remaining :: "'a WorkerPool \<Rightarrow> nat" where
  "remaining p = 3 * length (tasks p) + sum_list (map weight (workers p))"

subsection \<open>A world for the examples\<close>

text \<open>
  \<^verbatim>\<open>bufio.ScanLines\<close> on a body of short lines: the tokens end at a newline, a carriage
  return before it is dropped, and a last line without a newline is a token.
\<close>

fun scanAcc :: "string \<Rightarrow> string \<Rightarrow> string list" where
  "scanAcc acc [] = (if acc = [] then [] else [rev acc])"
| "scanAcc acc (c # cs) =
     (if c = CHR 0x0A
      then rev (if acc \<noteq> [] \<and> hd acc = CHR 0x0D then tl acc else acc) # scanAcc [] cs
      else scanAcc (c # acc) cs)"

text \<open>
  The JSON documents of the examples and the \<^verbatim>\<open>ChatResponse\<close> that \<^verbatim>\<open>encoding/json\<close>
  decodes each of them to (the tags of lines 106-111); any other text is taken as
  malformed.
\<close>

definition jsonTable :: "(string \<times> ChatResponse) list" where
  \<open>jsonTable =
    [(''{"event":"message_part","text_chunk":"x"}'',
       \<lparr>ID = 0, Event = ''message_part'', Text = ''x'', Status = [], Full = [], Error = []\<rparr>),
     (''{"event":"message_part","text_chunk":"y"}'',
       \<lparr>ID = 0, Event = ''message_part'', Text = ''y'', Status = [], Full = [], Error = []\<rparr>),
     (''{"event":"stream_end","status":"done"}'',
       \<lparr>ID = 0, Event = ''stream_end'', Text = [], Status = ''done'', Full = [], Error = []\<rparr>),
     (''{"full_response":"A. B."}'',
       \<lparr>ID = 0, Event = [], Text = [], Status = [], Full = ''A. B.'', Error = []\<rparr>)]\<close>

text \<open>A backend that answers every attempt with the response \<open>r\<close>.\<close>

definition exampleWorld :: "Response \<Rightarrow> world" where
  "exampleWorld r =
     \<lparr>backend = (\<lambda>attempt req. Some r), scanLines = scanAcc [],
      unmarshal = map_of jsonTable, decode = map_of jsonTable\<rparr>"

definition exampleEvent :: AppMentionEvent where
  "exampleEvent = \<lparr>ev_User = ''U1'', ev_Channel = ''C1'', ev_Text = ''foo'', ev_BotID = []\<rparr>"

text \<open>
  The responses of the examples: the stream of the records fragment "x", fragment "y",
  terminal, as the mock backend writes them; the same with the terminal record in the
  middle; a JSON document with the status \<open>s\<close>; and a body that is not JSON.
\<close>

definition streamXYEnd :: Response where
  \<open>streamXYEnd =
     \<lparr>StatusCode = 200, ContentType = ''text/event-stream'',
      Body = ''data: {"event":"message_part","text_chunk":"x"}\<newline>\<newline>data: {"event":"message_part","text_chunk":"y"}\<newline>\<newline>data: {"event":"stream_end","status":"done"}\<newline>\<newline>''\<rparr>\<close>

definition streamXEndY :: Response where
  \<open>streamXEndY =
     \<lparr>StatusCode = 200, ContentType = ''text/event-stream'',
      Body = ''data: {"event":"message_part","text_chunk":"x"}\<newline>\<newline>data: {"event":"stream_end","status":"done"}\<newline>\<newline>data: {"event":"message_part","text_chunk":"y"}\<newline>\<newline>''\<rparr>\<close>

definition documentAB :: "nat \<Rightarrow> Response" where
  \<open>documentAB s =
     \<lparr>StatusCode = s, ContentType = ''application/json'',
      Body = ''{"full_response":"A. B."}''\<rparr>\<close>

definition notJSON :: Response where
  "notJSON = \<lparr>StatusCode = 200, ContentType = ''application/json'', Body = ''<html>''\<rparr>"

section \<open>Properties\<close>

subsection \<open>Auxiliary facts: traces\<close>

lemma posts_append: "posts (xs @ ys) = posts xs @ posts ys"
  by (induction xs rule: posts.induct) auto

lemma attempts_append: "attempts (xs @ ys) = attempts xs @ attempts ys"
  by (induction xs rule: attempts.induct) auto

lemma posts_retryTrace: "posts (retryTrace k) = []"
  by (induction k) (auto simp: retryTrace_def posts_append)

lemma attempts_retryTrace: "attempts (retryTrace k) = [0..<Suc k]"
  by (induction k) (auto simp: retryTrace_def attempts_append)

lemma attempts_streamLoop: "attempts (streamLoop w ctx channel lines now) = []"
  by (induction lines arbitrary: now) (auto split: option.splits)

lemma attempts_chunkLoop: "attempts (chunkLoop channel chunks) = []"
  by (induction chunks) auto

lemma posts_streamLoop:
  "posts (streamLoop w None channel lines now) =
     map (\<lambda>m. (channel, Text m))
       (filter (\<lambda>m. Event m = ''message_part'') (dataRecords w lines))"
  by (induction lines arbitrary: now)
     (auto simp: dataRecords_def Done_def split: option.splits)

lemma streamLoop_backend:
  "streamLoop (w\<lparr>backend := b\<rparr>) ctx channel lines now = streamLoop w ctx channel lines now"
  by (induction lines arbitrary: now) (auto split: option.splits)


subsection \<open>Auxiliary facts: the retry loop\<close>

lemma Done_mono: "\<not> Done ctx (now + d) \<Longrightarrow> d' \<le> d \<Longrightarrow> \<not> Done ctx (now + d')"
  by (auto simp: Done_def split: option.splits)

lemma upt_small: "[0..<2] = [0, 1]" "[0..<1] = [0]"
  by (simp_all add: upt_rec)

lemma retryLoop_answer:
  assumes "firstAnswer w req = Some (k, r)" and "\<not> Done ctx (now + 3000)"
  shows "retryLoop w ctx req 0 now None None = (Some r, None, now + backoff k, retryTrace k)"
proof -
  have d: "\<not> Done ctx now" "\<not> Done ctx (now + 1000)" "\<not> Done ctx (now + 3000)"
    using assms(2) Done_mono[of ctx now 3000 0] Done_mono[of ctx now 3000 1000] by auto
  show ?thesis
    using assms(1) d
    by (auto simp: firstAnswer_def clientDo_def retryTrace_def backoff_def upt_small add.assoc
        numeral_2_eq_2 split: option.splits)
qed

lemma processTask_answer:
  assumes "firstAnswer w (request ev query) = Some (k, r)" and "\<not> Done ctx (now + 3000)"
  shows "processTask w ctx ev query now =
     retryTrace k @
     (if ContentType r = ''text/event-stream''
      then streamLoop w ctx (ev_Channel ev) (scanLines w (Body r)) (now + backoff k)
      else case decode w (Body r) of
             Some result \<Rightarrow> chunkLoop (ev_Channel ev) (SplitAfter (Full result) ''. '')
           | None \<Rightarrow> [])"
  using retryLoop_answer[OF assms[unfolded request_def]]
  by (simp add: processTask_def)

text \<open>The loop never reads the status of a response.\<close>

lemma retryLoop_status:
  "retryLoop (w\<lparr>backend := \<lambda>a q. map_option (StatusCode_update f) (backend w a q)\<rparr>)
       ctx req attempt now (map_option (StatusCode_update f) resp) err =
     (case retryLoop w ctx req attempt now resp err of
        (r, e, t, es) \<Rightarrow> (map_option (StatusCode_update f) r, e, t, es))"
proof (induction w ctx req attempt now resp err rule: retryLoop.induct)
  case (1 w ctx req attempt now resp err)
  show ?case
  proof (cases "attempt < 3")
    case False
    then show ?thesis by simp
  next
    case True
    show ?thesis
    proof (cases "Done ctx now")
      case d: True
      have c: "clientDo w ctx req attempt now = (None, Some ContextCanceled)"
        using d by (simp add: clientDo_def)
      have c': "clientDo (w\<lparr>backend := \<lambda>a q. map_option (StatusCode_update f) (backend w a q)\<rparr>)
                  ctx req attempt now = (None, Some ContextCanceled)"
        using d by (simp add: clientDo_def)
      from "1.IH"[OF True c[symmetric] refl] True c c'
      show ?thesis
        by (subst retryLoop.simps, subst (2) retryLoop.simps) (simp split: prod.splits)
    next
      case d: False
      show ?thesis
      proof (cases "backend w attempt req")
        case None
        have c: "clientDo w ctx req attempt now = (None, Some ConnectionFailed)"
          using d None by (simp add: clientDo_def)
        have c': "clientDo (w\<lparr>backend := \<lambda>a q. map_option (StatusCode_update f) (backend w a q)\<rparr>)
                  ctx req attempt now = (None, Some ConnectionFailed)"
          using d None by (simp add: clientDo_def)
        from "1.IH"[OF True c[symmetric] refl] True c c'
        show ?thesis
          by (subst retryLoop.simps, subst (2) retryLoop.simps) (simp split: prod.splits)
      next
        case (Some r)
        have c: "clientDo w ctx req attempt now = (Some r, None)"
          using d Some by (simp add: clientDo_def)
        have c': "clientDo (w\<lparr>backend := \<lambda>a q. map_option (StatusCode_update f) (backend w a q)\<rparr>)
                  ctx req attempt now = (Some (StatusCode_update f r), None)"
          using d Some by (simp add: clientDo_def)
        from True c c' show ?thesis
          by (subst retryLoop.simps, subst (2) retryLoop.simps) simp
      qed
    qed
  qed
qed

subsection \<open>Auxiliary facts: SplitAfter\<close>







subsection \<open>Auxiliary facts: trimming and replacing\<close>

lemma spaceRunes_not_Nil: "p \<in> set spaceRunes \<Longrightarrow> p \<noteq> []"
  by (auto simp: spaceRunes_def)

lemma leadingSpace_0: "leadingSpace s = 0 \<longleftrightarrow> (\<forall>p \<in> set spaceRunes. \<not> HasPrefix s p)"
proof (cases "List.find (\<lambda>p. HasPrefix s p) spaceRunes")
  case None
  then have "leadingSpace s = 0" by (simp add: leadingSpace_def)
  moreover from None have "\<forall>p \<in> set spaceRunes. \<not> HasPrefix s p"
    by (simp add: find_None_iff)
  ultimately show ?thesis by simp
next
  case (Some p)
  then have "p \<in> set spaceRunes" "HasPrefix s p"
    by (auto simp: find_Some_iff)
  with Some spaceRunes_not_Nil[of p] show ?thesis
    by (auto simp: leadingSpace_def)
qed

lemma trailingSpace_0:
  "trailingSpace s = 0 \<longleftrightarrow> (\<forall>p \<in> set spaceRunes. \<not> HasPrefix (rev s) (rev p))"
proof (cases "List.find (\<lambda>p. HasPrefix (rev s) (rev p)) spaceRunes")
  case None
  then have "trailingSpace s = 0" by (simp add: trailingSpace_def)
  moreover from None have "\<forall>p \<in> set spaceRunes. \<not> HasPrefix (rev s) (rev p)"
    by (simp add: find_None_iff)
  ultimately show ?thesis by simp
next
  case (Some p)
  then have "p \<in> set spaceRunes" "HasPrefix (rev s) (rev p)"
    by (auto simp: find_Some_iff)
  with Some spaceRunes_not_Nil[of p] show ?thesis
    by (auto simp: trailingSpace_def)
qed



lemma leadingSpace_Nil: "leadingSpace [] = 0"
  by (simp add: leadingSpace_def spaceRunes_def HasPrefix_def)

lemma trailingSpace_Nil: "trailingSpace [] = 0"
  by (simp add: trailingSpace_def spaceRunes_def HasPrefix_def)

lemma leadingSpace_TrimLeftSpace: "leadingSpace (TrimLeftSpace s) = 0"
proof (induction s rule: TrimLeftSpace.induct)
  case (1 s)
  show ?case
  proof (cases "leadingSpace s = 0 \<or> s = []")
    case True
    then show ?thesis
      using leadingSpace_Nil by (subst TrimLeftSpace.simps) auto
  next
    case False
    with 1 show ?thesis by (subst TrimLeftSpace.simps) simp
  qed
qed

lemma trailingSpace_TrimRightSpace: "trailingSpace (TrimRightSpace s) = 0"
proof (induction s rule: TrimRightSpace.induct)
  case (1 s)
  show ?case
  proof (cases "trailingSpace s = 0 \<or> s = []")
    case True
    then show ?thesis
      using trailingSpace_Nil by (subst TrimRightSpace.simps) auto
  next
    case False
    with 1 show ?thesis by (subst TrimRightSpace.simps) simp
  qed
qed


lemma HasPrefix_take: "HasPrefix (take n s) p \<Longrightarrow> HasPrefix s p"
proof -
  assume a: "HasPrefix (take n s) p"
  then have "length p \<le> length (take n s)" by (rule HasPrefix_length)
  then have "length p \<le> n" by simp
  with a show ?thesis by (simp add: HasPrefix_def min_def)
qed

lemma leadingSpace_take: "leadingSpace s = 0 \<Longrightarrow> leadingSpace (take n s) = 0"
  unfolding leadingSpace_0 using HasPrefix_take by blast

lemma leadingSpace_TrimRightSpace: "leadingSpace s = 0 \<Longrightarrow> leadingSpace (TrimRightSpace s) = 0"
proof (induction s rule: TrimRightSpace.induct)
  case (1 s)
  show ?case
  proof (cases "trailingSpace s = 0 \<or> s = []")
    case True
    with "1.prems" show ?thesis by (subst TrimRightSpace.simps) auto
  next
    case False
    with "1.IH" leadingSpace_take[OF "1.prems"] show ?thesis
      by (subst TrimRightSpace.simps) simp
  qed
qed

lemma TrimSpace_trimmed: "leadingSpace (TrimSpace s) = 0 \<and> trailingSpace (TrimSpace s) = 0"
  by (simp add: TrimSpace_def leadingSpace_TrimLeftSpace leadingSpace_TrimRightSpace
      trailingSpace_TrimRightSpace del: TrimLeftSpace.simps TrimRightSpace.simps)

lemma TrimSpace_idem: "TrimSpace (TrimSpace s) = TrimSpace s"
proof -
  have l: "TrimLeftSpace (TrimSpace s) = TrimSpace s"
    using TrimSpace_trimmed[of s] by (subst TrimLeftSpace.simps) simp
  have r: "TrimRightSpace (TrimSpace s) = TrimSpace s"
    using TrimSpace_trimmed[of s] by (subst TrimRightSpace.simps) simp
  show ?thesis
    by (subst (1) TrimSpace_def) (simp only: l r)
qed






lemma ReplaceAll_absent: "Index s old = None \<Longrightarrow> ReplaceAll s old = s"
proof (induction s)
  case Nil
  then show ?case by simp
next
  case (Cons c cs)
  then show ?case by (auto split: if_splits option.splits)
qed

lemma ReplaceAll_leading: "old \<noteq> [] \<Longrightarrow> ReplaceAll (old @ rest) old = ReplaceAll rest old"
  by (cases old) (auto simp: HasPrefix_def)

subsection \<open>Auxiliary facts: the pool\<close>

lemma sum_list_map_update:
  fixes f :: "'a \<Rightarrow> 'b::comm_monoid_add"
  shows "i < length ws \<Longrightarrow>
    sum_list (map f (ws[i := x])) + f (ws ! i) = sum_list (map f ws) + f x"
proof (induction ws arbitrary: i)
  case Nil
  then show ?case by simp
next
  case (Cons w ws)
  show ?case
  proof (cases i)
    case 0
    then show ?thesis by (simp add: ac_simps)
  next
    case (Suc j)
    with Cons.prems have "j < length ws" by simp
    from Cons.IH[OF this] Suc show ?thesis by (simp add: ac_simps)
  qed
qed

lemma inFlight_update:
  "i < length ws \<Longrightarrow> inFlight (ws[i := x]) + busy (ws ! i) = inFlight ws + busy x"
  unfolding inFlight_def by (rule sum_list_map_update)

lemma Exited_update:
  "x \<noteq> Exited \<Longrightarrow> Exited \<in> set (ws[i := x]) \<Longrightarrow> Exited \<in> set ws"
  using set_update_subset_insert[of ws i x] by auto

lemma poolInv_New: "poolInv (NewWorkerPool n)"
  by (induction n) (simp_all add: poolInv_def NewWorkerPool_def inFlight_def)

lemma poolInv_step:
  assumes "poolInv p" and "step a p = Ok p'"
  shows "poolInv p'"
proof (cases a)
  case (CallSubmit task)
  with assms show ?thesis
    by (auto simp: poolInv_def Submit_def split: if_splits)
next
  case (Receive i)
  with assms(2) have i: "i < length (workers p)" "workers p ! i = Idle" "tasks p \<noteq> []"
    and p': "p' = p\<lparr>tasks := tl (tasks p), workers := (workers p)[i := Running (hd (tasks p))]\<rparr>"
    by (auto split: if_splits)
  from i(3) obtain t ts where ts: "tasks p = t # ts" by (cases "tasks p") auto
  have f: "inFlight ((workers p)[i := Running t]) = inFlight (workers p) + {#t#}"
    using inFlight_update[OF i(1), of "Running t"] i(2) by simp
  have a: "sum_list (map alive ((workers p)[i := Running t])) = sum_list (map alive (workers p))"
    using sum_list_map_update[OF i(1), of alive "Running t"] i(2) by simp
  have e: "Exited \<in> set ((workers p)[i := Running t]) \<Longrightarrow> Exited \<in> set (workers p)"
    using Exited_update[of "Running t"] by simp
  from assms(1) ts e show ?thesis
    unfolding p' poolInv_def by (auto simp: f a split: if_splits)
next
  case (Finish i)
  with assms(2) obtain t where i: "i < length (workers p)" "workers p ! i = Running t"
    and p': "p' = p\<lparr>workers := (workers p)[i := Idle], ran := ran p @ [t]\<rparr>"
    by (auto split: if_splits worker.splits)
  have f: "inFlight ((workers p)[i := Idle]) + {#t#} = inFlight (workers p)"
    using inFlight_update[OF i(1), of Idle] i(2) by simp
  have a: "sum_list (map alive ((workers p)[i := Idle])) = sum_list (map alive (workers p))"
    using sum_list_map_update[OF i(1), of alive Idle] i(2) by simp
  have e: "Exited \<in> set ((workers p)[i := Idle]) \<Longrightarrow> Exited \<in> set (workers p)"
    using Exited_update[of Idle] by simp
  from assms(1) e show ?thesis
    unfolding p' poolInv_def by (auto simp: f[symmetric] a split: if_splits)
next
  case (Leave i)
  with assms(2) have i: "i < length (workers p)" "workers p ! i = Idle" "tasks p = []" "closed p"
    and p': "p' = p\<lparr>workers := (workers p)[i := Exited], wg := wg p - 1\<rparr>"
    by (auto split: if_splits)
  have f: "inFlight ((workers p)[i := Exited]) = inFlight (workers p)"
    using inFlight_update[OF i(1), of Exited] i(2) by simp
  have a: "sum_list (map alive ((workers p)[i := Exited])) + 1 = sum_list (map alive (workers p))"
    using sum_list_map_update[OF i(1), of alive Exited] i(2) by simp
  from assms(1) i(3,4) a show ?thesis
    unfolding p' poolInv_def by (auto simp: f split: if_splits)
next
  case ShutdownClose
  with assms show ?thesis
    by (auto simp: poolInv_def split: if_splits)
next
  case ShutdownWait
  with assms show ?thesis
    by (auto simp: poolInv_def split: if_splits)
qed

lemma poolInv_run: "poolInv p \<Longrightarrow> run acts p = Ok p' \<Longrightarrow> poolInv p'"
proof (induction acts arbitrary: p)
  case Nil
  then show ?case by simp
next
  case (Cons a acts)
  from Cons.prems(2) obtain q where q: "step a p = Ok q" "run acts q = Ok p'"
    by (auto split: outcome.splits)
  from Cons.IH[OF poolInv_step[OF Cons.prems(1) q(1)] q(2)] show ?case .
qed

lemma workers_step: "step a p = Ok p' \<Longrightarrow> length (workers p') = length (workers p)"
  by (cases a) (auto simp: Submit_def split: if_splits worker.splits)

lemma workers_run: "run acts p = Ok p' \<Longrightarrow> length (workers p') = length (workers p)"
proof (induction acts arbitrary: p)
  case Nil
  then show ?case by simp
next
  case (Cons a acts)
  from Cons.prems obtain q where q: "step a p = Ok q" "run acts q = Ok p'"
    by (auto split: outcome.splits)
  with Cons.IH[OF q(2)] workers_step[OF q(1)] show ?case by simp
qed

lemma accepted_step: "step a p = Ok p' \<Longrightarrow> accepted p' = accepted p @ submissions [a]"
  by (cases a) (auto simp: Submit_def split: if_splits worker.splits)

lemma submissions_Cons: "submissions (a # as) = submissions [a] @ submissions as"
  by (cases a) auto

lemma accepted_run: "run acts p = Ok p' \<Longrightarrow> accepted p' = accepted p @ submissions acts"
proof (induction acts arbitrary: p)
  case Nil
  then show ?case by simp
next
  case (Cons a acts)
  from Cons.prems obtain q where q: "step a p = Ok q" "run acts q = Ok p'"
    by (auto split: outcome.splits)
  from Cons.IH[OF q(2)] accepted_step[OF q(1)] show ?case
    by (subst submissions_Cons) simp
qed



lemma all_Exited:
  assumes "sum_list (map alive ws) = 0"
  shows "\<forall>w \<in> set ws. w = Exited"
proof
  fix w assume "w \<in> set ws"
  with assms have "alive w = 0" by (induction ws) auto
  then show "w = Exited" by (cases w) auto
qed

lemma inFlight_Exited: "\<forall>w \<in> set ws. w = Exited \<Longrightarrow> inFlight ws = {#}"
  by (induction ws) (auto simp: inFlight_def)


lemma alive_worker:
  "sum_list (map alive ws) \<noteq> 0 \<Longrightarrow> \<exists>i < length ws. ws ! i \<noteq> Exited"
proof (induction ws)
  case Nil
  then show ?case by simp
next
  case (Cons w ws)
  show ?case
  proof (cases "w = Exited")
    case True
    with Cons obtain i where "i < length ws" "ws ! i \<noteq> Exited" by auto
    then have "Suc i < length (w # ws)" "(w # ws) ! Suc i \<noteq> Exited" by auto
    then show ?thesis by blast
  next
    case False
    then have "0 < length (w # ws)" "(w # ws) ! 0 \<noteq> Exited" by auto
    then show ?thesis by blast
  qed
qed

lemma waiting_progress:
  assumes "poolInv p" and "shutdown p = Waiting" and "wg p \<noteq> 0"
  shows "\<exists>a q. step a p = Ok q \<and> shutdown q = Waiting \<and> remaining q < remaining p"
proof -
  from assms(1,2) have cl: "closed p" by (auto simp: poolInv_def split: if_splits)
  from assms(1) have w: "wg p = sum_list (map alive (workers p))"
    by (simp add: poolInv_def)
  from assms(3) have "sum_list (map alive (workers p)) \<noteq> 0" unfolding w .
  then obtain i where i: "i < length (workers p)" "workers p ! i \<noteq> Exited"
    using alive_worker by blast
  show ?thesis
  proof (cases "workers p ! i")
    case Exited
    with i show ?thesis by simp
  next
    case (Running t)
    let ?q = "p\<lparr>workers := (workers p)[i := Idle], ran := ran p @ [t]\<rparr>"
    have s: "step (Finish i) p = Ok ?q" using i Running by simp
    have "sum_list (map weight ((workers p)[i := Idle])) + 2 = sum_list (map weight (workers p)) + 1"
      using sum_list_map_update[OF i(1), of weight Idle] Running by simp
    then have "remaining ?q < remaining p" by (simp add: remaining_def)
    with s assms(2) show ?thesis by (intro exI[of _ "Finish i"] exI[of _ ?q]) simp
  next
    case Idle
    show ?thesis
    proof (cases "tasks p")
      case Nil
      let ?q = "p\<lparr>workers := (workers p)[i := Exited], wg := wg p - 1\<rparr>"
      have s: "step (Leave i) p = Ok ?q" using i Idle Nil cl by simp
      have "sum_list (map weight ((workers p)[i := Exited])) + 1 = sum_list (map weight (workers p))"
        using sum_list_map_update[OF i(1), of weight Exited] Idle by simp
      then have "remaining ?q < remaining p" by (simp add: remaining_def)
      with s assms(2) show ?thesis by (intro exI[of _ "Leave i"] exI[of _ ?q]) simp
    next
      case (Cons t ts)
      let ?q = "p\<lparr>tasks := tl (tasks p), workers := (workers p)[i := Running (hd (tasks p))]\<rparr>"
      have s: "step (Receive i) p = Ok ?q" using i Idle Cons by simp
      have "sum_list (map weight ((workers p)[i := Running (hd (tasks p))])) + 1 =
            sum_list (map weight (workers p)) + 2"
        using sum_list_map_update[OF i(1), of weight "Running (hd (tasks p))"] Idle by simp
      then have "remaining ?q < remaining p" using Cons by (simp add: remaining_def)
      with s assms(2) show ?thesis by (intro exI[of _ "Receive i"] exI[of _ ?q]) simp
    qed
  qed
qed

lemma shutdown_can_return:
  assumes "poolInv p" and "shutdown p = Waiting"
  shows "\<exists>more q. run more p = Ok q \<and> shutdown q = Returned"
  using assms
proof (induction "remaining p" arbitrary: p rule: less_induct)
  case less
  show ?case
  proof (cases "wg p = 0")
    case True
    with less.prems(2) have "run [ShutdownWait] p = Ok (p\<lparr>shutdown := Returned\<rparr>)" by simp
    then show ?thesis by (intro exI[of _ "[ShutdownWait]"] exI[of _ "p\<lparr>shutdown := Returned\<rparr>"]) simp
  next
    case False
    from waiting_progress[OF less.prems False] obtain a q where
      q: "step a p = Ok q" "shutdown q = Waiting" "remaining q < remaining p" by blast
    have "poolInv q" using less.prems(1) q(1) by (rule poolInv_step)
    from less.hyps[OF q(3) this q(2)] obtain more r where
      r: "run more q = Ok r" "shutdown r = Returned" by blast
    with q(1) have "run (a # more) p = Ok r" by simp
    with r(2) show ?thesis by blast
  qed
qed

subsection \<open>The retry loop\<close>

text \<open>
  C2. When no attempt reaches the backend, \<^verbatim>\<open>processTask\<close> calls it three times and
  posts the fallback message once, and nothing follows. The claim has the backoff sleeps
  between the attempts only (1 s, 2 s); the loop sleeps after every failed attempt, the
  last one too, so the fallback message comes 3 s after the third failure.
\<close>

theorem retry_exhausted_trace:
  "processTask (w\<lparr>backend := \<lambda>attempt req. None\<rparr>) None ev query now =
     [Do 0, Sleep 1000, Do 1, Sleep 2000, Do 2, Sleep 3000,
      PostMessage (ev_Channel ev) ''Service unavailable, please try later'']"
  by (simp add: processTask_def clientDo_def Done_def)

text \<open>
  C3. A context cancelled 500 ms into the first backoff sleep, with a backend that would
  answer from the second attempt on. The claim has the client return at once; the loop
  finishes the sleep, calls \<^verbatim>\<open>Do\<close> twice more (each call fails on the cancelled context),
  sleeps 2 s and 3 s, and the task then posts the fallback message.
\<close>

theorem cancelled_during_backoff_trace:
  "processTask (w\<lparr>backend := \<lambda>attempt req. if attempt = 0 then None else Some r\<rparr>)
       (Some 500) ev query 0 =
     [Do 0, Sleep 1000, Do 1, Sleep 2000, Do 2, Sleep 3000,
      PostMessage (ev_Channel ev) ''Service unavailable, please try later'']"
  by (simp add: processTask_def clientDo_def Done_def)

subsection \<open>The response of the backend\<close>

text \<open>
  C1, as the claim states it, fails: a \<^verbatim>\<open>stream_end\<close> record does not end the loop.
  On the records fragment "x", terminal, fragment "y" the task posts "x" and "y", where
  the specification's reading stops after "x".
\<close>

theorem stream_goes_on_after_terminal:
  "map snd (posts (processTask (exampleWorld streamXEndY) None exampleEvent ''foo'' 0))
     = [''x'', ''y'']
 \<and> map Event (dataRecords (exampleWorld streamXEndY)
       (scanLines (exampleWorld streamXEndY) (Body streamXEndY)))
     = [''message_part'', ''stream_end'', ''message_part'']
 \<and> specFragments (dataRecords (exampleWorld streamXEndY)
       (scanLines (exampleWorld streamXEndY) (Body streamXEndY)))
     = [''x'']"
  by (simp add: processTask_def exampleWorld_def exampleEvent_def streamXEndY_def jsonTable_def
      clientDo_def Done_def HasPrefix_def TrimPrefix_def specFragments_def dataRecords_def
      List.map_filter_simps)

text \<open>
  C1, amended. For a streamed response, under a context that is not cancelled, the task
  posts one fragment for every data record of kind \<^verbatim>\<open>message_part\<close>, in the order of
  arrival, and none for any other record, a terminal record included; the loop reads on
  to the end of the stream. Whenever no fragment record follows the first terminal
  record, this is the specification's reading.
\<close>

theorem stream_fragments:
  assumes "firstAnswer w (request ev query) = Some (k, r)"
    and "ContentType r = ''text/event-stream''"
  shows "posts (processTask w None ev query now) =
           map (\<lambda>m. (ev_Channel ev, Text m))
             (filter (\<lambda>m. Event m = ''message_part'') (dataRecords w (scanLines w (Body r))))
       \<and> (filter (\<lambda>m. Event m = ''message_part'')
             (dropWhile (\<lambda>m. Event m \<noteq> ''stream_end'') (dataRecords w (scanLines w (Body r)))) = []
           \<longrightarrow> map snd (posts (processTask w None ev query now)) =
                 specFragments (dataRecords w (scanLines w (Body r))))"
proof -
  let ?rs = "dataRecords w (scanLines w (Body r))"
  let ?P = "\<lambda>m. Event m = ''message_part''"
  let ?Q = "\<lambda>m. Event m \<noteq> ''stream_end''"
  have alive: "\<not> Done None (now + 3000)" by (simp add: Done_def)
  have p: "posts (processTask w None ev query now) = map (\<lambda>m. (ev_Channel ev, Text m)) (filter ?P ?rs)"
    using processTask_answer[OF assms(1) alive] assms(2)
    by (simp add: posts_append posts_retryTrace posts_streamLoop)
  have "filter ?P ?rs = filter ?P (takeWhile ?Q ?rs) @ filter ?P (dropWhile ?Q ?rs)"
    by (metis filter_append takeWhile_dropWhile_id)
  then have "filter ?P (dropWhile ?Q ?rs) = [] \<Longrightarrow>
      map snd (posts (processTask w None ev query now)) = specFragments ?rs"
    by (simp add: p specFragments_def comp_def)
  with p show ?thesis by blast
qed

theorem stream_fragments_witness:
  "firstAnswer (exampleWorld streamXYEnd) (request exampleEvent ''foo'') = Some (0, streamXYEnd)
 \<and> ContentType streamXYEnd = ''text/event-stream''
 \<and> map Event (dataRecords (exampleWorld streamXYEnd)
       (scanLines (exampleWorld streamXYEnd) (Body streamXYEnd)))
     = [''message_part'', ''message_part'', ''stream_end'']
 \<and> posts (processTask (exampleWorld streamXYEnd) None exampleEvent ''foo'' 0)
     = [(''C1'', ''x''), (''C1'', ''y'')]
 \<and> specFragments (dataRecords (exampleWorld streamXYEnd)
       (scanLines (exampleWorld streamXYEnd) (Body streamXYEnd)))
     = [''x'', ''y'']"
proof -
  let ?w = "exampleWorld streamXYEnd"
  have a: "firstAnswer ?w (request exampleEvent ''foo'') = Some (0, streamXYEnd)"
    by (simp add: firstAnswer_def exampleWorld_def)
  have c: "ContentType streamXYEnd = ''text/event-stream''"
    by (simp add: streamXYEnd_def)
  have e: "map Event (dataRecords ?w (scanLines ?w (Body streamXYEnd)))
      = [''message_part'', ''message_part'', ''stream_end'']"
    by (simp add: exampleWorld_def streamXYEnd_def jsonTable_def HasPrefix_def TrimPrefix_def
        dataRecords_def List.map_filter_simps)
  have t: "map Text (dataRecords ?w (scanLines ?w (Body streamXYEnd))) = [''x'', ''y'', []]"
    by (simp add: exampleWorld_def streamXYEnd_def jsonTable_def HasPrefix_def TrimPrefix_def
        dataRecords_def List.map_filter_simps)
  from e t obtain m1 m2 m3 where
    r: "dataRecords ?w (scanLines ?w (Body streamXYEnd)) = [m1, m2, m3]"
      "Event m1 = ''message_part''" "Event m2 = ''message_part''" "Event m3 = ''stream_end''"
      "Text m1 = ''x''" "Text m2 = ''y''"
    by (auto simp: map_eq_Cons_conv)
  have p: "posts (processTask ?w None exampleEvent ''foo'' 0) = [(''C1'', ''x''), (''C1'', ''y'')]"
    using stream_fragments[OF a c, of 0, THEN conjunct1] r
    by (simp add: exampleEvent_def)
  have s: "specFragments (dataRecords ?w (scanLines ?w (Body streamXYEnd))) = [''x'', ''y'']"
    using r by (simp add: specFragments_def)
  from a c e p s show ?thesis by (intro conjI)
qed

text \<open>
  C4, as the claim states it, fails: the status of a response is never read. A response
  with status 500 is not retried, and its body is processed as a normal payload.
\<close>

theorem status_500_processed:
  "StatusCode (documentAB 500) = 500
 \<and> processTask (exampleWorld (documentAB 500)) None exampleEvent ''foo'' 0 =
     [Do 0, PostMessage ''C1'' ''A.'', Sleep 500, PostMessage ''C1'' ''B.'', Sleep 500]"
  by (simp add: processTask_def exampleWorld_def exampleEvent_def documentAB_def jsonTable_def
      clientDo_def Done_def HasPrefix_def TrimSpace_def leadingSpace_def trailingSpace_def
      spaceRunes_def)

text \<open>
  C4, amended. A response that arrives over a successful connection is not retried,
  whatever its status: the attempts end with the one that connected. The task then handles
  it exactly as it would with any other status, a 2xx one included: replacing the status of
  every response changes nothing in what the task does. No failure is surfaced for a
  status outside 2xx.
\<close>

theorem status_never_read:
  assumes "firstAnswer w (request ev query) = Some (k, r)" and "\<not> Done ctx (now + 3000)"
  shows "attempts (processTask w ctx ev query now) = [0..<Suc k]
       \<and> processTask (w\<lparr>backend := \<lambda>a q. map_option (StatusCode_update f) (backend w a q)\<rparr>)
             ctx ev query now = processTask w ctx ev query now"
proof -
  have "attempts (processTask w ctx ev query now) = [0..<Suc k]"
    unfolding processTask_answer[OF assms]
    by (simp add: attempts_append attempts_retryTrace attempts_streamLoop attempts_chunkLoop
        split: option.splits)
  moreover have
    "processTask (w\<lparr>backend := \<lambda>a q. map_option (StatusCode_update f) (backend w a q)\<rparr>)
       ctx ev query now = processTask w ctx ev query now"
  proof -
    let ?w = "w\<lparr>backend := \<lambda>a q. map_option (StatusCode_update f) (backend w a q)\<rparr>"
    let ?req = "\<lparr>UserID = ev_User ev, Query = query, ChannelID = ev_Channel ev\<rparr>"
    obtain r0 e t es where R: "retryLoop w ctx ?req 0 now None None = (r0, e, t, es)"
      by (cases "retryLoop w ctx ?req 0 now None None") auto
    have R': "retryLoop ?w ctx ?req 0 now None None = (map_option (StatusCode_update f) r0, e, t, es)"
      using retryLoop_status[where w = w and f = f and ctx = ctx and req = ?req
          and attempt = 0 and now = now and resp = None and err = None] R
      by (simp del: retryLoop.simps)
    show ?thesis
      unfolding processTask_def Let_def R R'
      by (cases r0; cases e) (simp_all add: streamLoop_backend)
  qed
  ultimately show ?thesis by simp
qed

theorem status_never_read_witness:
  "firstAnswer (exampleWorld (documentAB 500)) (request exampleEvent ''foo'')
     = Some (0, documentAB 500)
 \<and> \<not> Done None (0 + 3000)
 \<and> attempts (processTask (exampleWorld (documentAB 500)) None exampleEvent ''foo'' 0) = [0]
 \<and> processTask (exampleWorld (documentAB 500)) None exampleEvent ''foo'' 0
     = processTask (exampleWorld (documentAB 200)) None exampleEvent ''foo'' 0"
proof -
  have a: "firstAnswer (exampleWorld (documentAB 500)) (request exampleEvent ''foo'')
      = Some (0, documentAB 500)"
    by (simp add: firstAnswer_def exampleWorld_def)
  have d: "\<not> Done None (0 + 3000)" by (simp add: Done_def)
  show ?thesis
    using a d status_never_read[OF a d, of "\<lambda>s. 200"]
    by (simp add: exampleWorld_def documentAB_def)
qed



text \<open>
  C10. For a response of any content type but \<^verbatim>\<open>text/event-stream\<close> whose body does not
  decode, the task ends after the call that connected: it posts nothing, no fallback
  message either.
\<close>

theorem undecodable_document_silent:
  assumes "firstAnswer w (request ev query) = Some (k, r)" and "\<not> Done ctx (now + 3000)"
    and "ContentType r \<noteq> ''text/event-stream''" and "decode w (Body r) = None"
  shows "posts (processTask w ctx ev query now) = []
       \<and> processTask w ctx ev query now = retryTrace k"
  unfolding processTask_answer[OF assms(1,2)] using assms(3,4)
  by (simp add: posts_retryTrace)

theorem undecodable_document_silent_witness:
  "firstAnswer (exampleWorld notJSON) (request exampleEvent ''foo'') = Some (0, notJSON)
 \<and> \<not> Done None (0 + 3000)
 \<and> ContentType notJSON \<noteq> ''text/event-stream''
 \<and> decode (exampleWorld notJSON) (Body notJSON) = None
 \<and> posts (processTask (exampleWorld notJSON) None exampleEvent ''foo'' 0) = []
 \<and> processTask (exampleWorld notJSON) None exampleEvent ''foo'' 0 = [Do 0]"
proof -
  have a: "firstAnswer (exampleWorld notJSON) (request exampleEvent ''foo'') = Some (0, notJSON)"
    by (simp add: firstAnswer_def exampleWorld_def)
  have d: "\<not> Done None (0 + 3000)" by (simp add: Done_def)
  have c: "ContentType notJSON \<noteq> ''text/event-stream''"
    by (simp add: notJSON_def)
  have j: "decode (exampleWorld notJSON) (Body notJSON) = None"
    by (simp add: exampleWorld_def notJSON_def jsonTable_def)
  show ?thesis
    using a d c j undecodable_document_silent[OF a d c j]
    by (simp add: retryTrace_def)
qed

subsection \<open>The dispatchers\<close>

text \<open>
  C5, as the claim states it, fails twice. An event without a bot identifier is not
  dropped: the token is then \<^verbatim>\<open><@>\<close>, and a text that does not contain it is submitted
  after trimming. And the token is deleted wherever it stands, not only at the start.
\<close>

theorem mention_without_bot_id_submitted:
  "processMention None
       \<lparr>ev_User = ''U123'', ev_Channel = ''C123'', ev_Text = ''hello'', ev_BotID = []\<rparr>
       (NewWorkerPool 1) =
     Ok ((NewWorkerPool 1)
           \<lparr>tasks := [Task None \<lparr>ev_User = ''U123'', ev_Channel = ''C123'',
                                 ev_Text = ''hello'', ev_BotID = []\<rparr> ''hello''],
            accepted := [Task None \<lparr>ev_User = ''U123'', ev_Channel = ''C123'',
                                    ev_Text = ''hello'', ev_BotID = []\<rparr> ''hello'']\<rparr>)
   \<and> cleanQuery \<lparr>ev_User = ''U123'', ev_Channel = ''C123'',
                   ev_Text = ''What is <@B456> for?'', ev_BotID = ''B456''\<rparr>
       = ''What is  for?''"
  by (simp add: processMention_def cleanQuery_def Submit_def NewWorkerPool_def TrimSpace_def
      leadingSpace_def trailingSpace_def spaceRunes_def HasPrefix_def)

text \<open>
  C5, amended. The query of a mention is its text with every occurrence of the token
  \<^verbatim>\<open><@BotID>\<close> deleted, then trimmed, so it has no white space at either end. The event
  is dropped, the pool left as it is, exactly when that query is empty; otherwise one task
  with that query is sent to the pool (appended to the buffer of a pool that is open and
  has room). A text without the token is only trimmed, whether or not the event has a bot
  identifier; a leading token is stripped.
\<close>

theorem mention_dispatch:
  "cleanQuery ev = TrimSpace (ReplaceAll (ev_Text ev) (''<@'' @ ev_BotID ev @ ''>''))
 \<and> leadingSpace (cleanQuery ev) = 0 \<and> trailingSpace (cleanQuery ev) = 0
 \<and> (cleanQuery ev = [] \<longrightarrow> processMention ctx ev pool = Ok pool)
 \<and> (cleanQuery ev \<noteq> [] \<longrightarrow>
      processMention ctx ev pool = Submit pool (Task ctx ev (cleanQuery ev)))
 \<and> (cleanQuery ev \<noteq> [] \<and> \<not> closed pool \<and> length (tasks pool) < capacity pool \<longrightarrow>
      processMention ctx ev pool =
        Ok (pool\<lparr>tasks := tasks pool @ [Task ctx ev (cleanQuery ev)],
                 accepted := accepted pool @ [Task ctx ev (cleanQuery ev)]\<rparr>))
 \<and> (Index (ev_Text ev) (''<@'' @ ev_BotID ev @ ''>'') = None \<longrightarrow>
      cleanQuery ev = TrimSpace (ev_Text ev))
 \<and> (\<forall>rest. ev_Text ev = (''<@'' @ ev_BotID ev @ ''>'') @ rest \<longrightarrow>
      cleanQuery ev = TrimSpace (ReplaceAll rest (''<@'' @ ev_BotID ev @ ''>'')))"
proof -
  have "leadingSpace (cleanQuery ev) = 0 \<and> trailingSpace (cleanQuery ev) = 0"
    unfolding cleanQuery_def by (rule TrimSpace_trimmed)
  moreover have "cleanQuery ev = TrimSpace (ReplaceAll rest (''<@'' @ ev_BotID ev @ ''>''))"
    if "ev_Text ev = (''<@'' @ ev_BotID ev @ ''>'') @ rest" for rest
    using ReplaceAll_leading[of "''<@'' @ ev_BotID ev @ ''>''" rest] that
    by (simp add: cleanQuery_def del: ReplaceAll.simps)
  ultimately show ?thesis
    by (auto simp: processMention_def Submit_def cleanQuery_def ReplaceAll_absent
        simp del: ReplaceAll.simps)
qed

theorem mention_dispatch_witness:
  "cleanQuery \<lparr>ev_User = ''U123'', ev_Channel = ''C123'', ev_Text = ''<@B456>   '',
               ev_BotID = ''B456''\<rparr> = []
 \<and> processMention None
      \<lparr>ev_User = ''U123'', ev_Channel = ''C123'', ev_Text = ''<@B456>   '',
       ev_BotID = ''B456''\<rparr> (NewWorkerPool 1) = Ok (NewWorkerPool 1)
 \<and> cleanQuery \<lparr>ev_User = ''U123'', ev_Channel = ''C123'',
               ev_Text = ''<@B456>   What is Go?'', ev_BotID = ''B456''\<rparr> = ''What is Go?''
 \<and> \<not> closed (NewWorkerPool 1 :: task WorkerPool)
 \<and> length (tasks (NewWorkerPool 1 :: task WorkerPool)) < capacity (NewWorkerPool 1 :: task WorkerPool)
 \<and> processMention None
      \<lparr>ev_User = ''U123'', ev_Channel = ''C123'', ev_Text = ''<@B456>   What is Go?'',
       ev_BotID = ''B456''\<rparr> (NewWorkerPool 1) =
     Ok ((NewWorkerPool 1)
           \<lparr>tasks := [Task None \<lparr>ev_User = ''U123'', ev_Channel = ''C123'',
                         ev_Text = ''<@B456>   What is Go?'', ev_BotID = ''B456''\<rparr>
                         ''What is Go?''],
            accepted := [Task None \<lparr>ev_User = ''U123'', ev_Channel = ''C123'',
                         ev_Text = ''<@B456>   What is Go?'', ev_BotID = ''B456''\<rparr>
                         ''What is Go?'']\<rparr>)
 \<and> Index ''hello'' ''<@>'' = None
 \<and> cleanQuery \<lparr>ev_User = ''U123'', ev_Channel = ''C123'', ev_Text = ''hello'',
               ev_BotID = []\<rparr> = ''hello''
 \<and> ''<@B456>   What is Go?'' = (''<@'' @ ''B456'' @ ''>'') @ ''   What is Go?''
 \<and> TrimSpace (ReplaceAll ''   What is Go?'' ''<@B456>'') = ''What is Go?''"
proof -
  let ?drop = "\<lparr>ev_User = ''U123'', ev_Channel = ''C123'', ev_Text = ''<@B456>   '',
                ev_BotID = ''B456''\<rparr>"
  let ?keep = "\<lparr>ev_User = ''U123'', ev_Channel = ''C123'',
                ev_Text = ''<@B456>   What is Go?'', ev_BotID = ''B456''\<rparr>"
  let ?bare = "\<lparr>ev_User = ''U123'', ev_Channel = ''C123'', ev_Text = ''hello'',
                ev_BotID = []\<rparr>"
  have q1: "cleanQuery ?drop = []"
    by (simp add: cleanQuery_def TrimSpace_def leadingSpace_def trailingSpace_def
        spaceRunes_def HasPrefix_def)
  have q2: "cleanQuery ?keep = ''What is Go?''"
    by (simp add: cleanQuery_def TrimSpace_def leadingSpace_def trailingSpace_def
        spaceRunes_def HasPrefix_def)
  have i: "Index ''hello'' ''<@>'' = None"
    by (simp add: HasPrefix_def)
  have t: "TrimSpace ''hello'' = ''hello''"
    by (simp add: TrimSpace_def leadingSpace_def trailingSpace_def spaceRunes_def
        HasPrefix_def)
  have o: "\<not> closed (NewWorkerPool 1 :: task WorkerPool)"
    "length (tasks (NewWorkerPool 1 :: task WorkerPool)) < capacity (NewWorkerPool 1 :: task WorkerPool)"
    by (simp_all add: NewWorkerPool_def)
  note c4 = conjunct2[THEN conjunct2, THEN conjunct2, THEN conjunct1]
  note c6 = conjunct2[THEN conjunct2, THEN conjunct2, THEN conjunct2, THEN conjunct2,
      THEN conjunct1]
  note c7 = conjunct2[THEN conjunct2, THEN conjunct2, THEN conjunct2, THEN conjunct2,
      THEN conjunct2, THEN conjunct1]
  have d: "processMention None ?drop (NewWorkerPool 1) = Ok (NewWorkerPool 1)"
    using mention_dispatch[of ?drop None "NewWorkerPool 1", THEN c4] q1 by (rule mp)
  have h: "cleanQuery ?keep \<noteq> [] \<and> \<not> closed (NewWorkerPool 1 :: task WorkerPool)
      \<and> length (tasks (NewWorkerPool 1 :: task WorkerPool)) < capacity (NewWorkerPool 1 :: task WorkerPool)"
    using q2 o by simp
  have k: "processMention None ?keep (NewWorkerPool 1) =
      Ok ((NewWorkerPool 1)\<lparr>tasks := tasks (NewWorkerPool 1) @ [Task None ?keep (cleanQuery ?keep)],
            accepted := accepted (NewWorkerPool 1) @ [Task None ?keep (cleanQuery ?keep)]\<rparr>)"
    using mention_dispatch[of ?keep None "NewWorkerPool 1", THEN c6] h by (rule mp)
  have i': "Index (ev_Text ?bare) (''<@'' @ ev_BotID ?bare @ ''>'') = None"
    using i by simp
  have b: "cleanQuery ?bare = TrimSpace (ev_Text ?bare)"
    using mention_dispatch[of ?bare None "NewWorkerPool 1", THEN c7] i' by (rule mp)
  note c8 = conjunct2[THEN conjunct2, THEN conjunct2, THEN conjunct2, THEN conjunct2,
      THEN conjunct2, THEN conjunct2]
  have l: "ev_Text ?keep = (''<@'' @ ev_BotID ?keep @ ''>'') @ ''   What is Go?''"
    by simp
  have r: "cleanQuery ?keep = TrimSpace (ReplaceAll ''   What is Go?'' (''<@'' @ ev_BotID ?keep @ ''>''))"
    using mention_dispatch[of ?keep None "NewWorkerPool 1", THEN c8, THEN spec, THEN mp, OF l] .
  have r': "TrimSpace (ReplaceAll ''   What is Go?'' ''<@B456>'') = ''What is Go?''"
    using r q2 by (simp del: ReplaceAll.simps)
  show ?thesis
    using d k[unfolded q2] b q1 q2 i t o r'
    by (simp add: NewWorkerPool_def del: Index.simps ReplaceAll.simps)
qed

text \<open>
  C6. A direct message whose text is one space: \<^verbatim>\<open>processDirectMessage\<close> compares the
  text with the empty string without trimming it (\<^verbatim>\<open>processMention\<close> trims first), so the
  task is submitted, with a query that is empty after trimming.
\<close>

theorem blank_direct_message_submitted:
  "processDirectMessage ctx
       \<lparr>msg_User = ''U1'', msg_Channel = ''D1'', msg_Text = '' '', msg_BotID = [],
        msg_ChannelType = ''im''\<rparr> (NewWorkerPool 1) =
     Ok ((NewWorkerPool 1)
           \<lparr>tasks := [Task ctx \<lparr>ev_User = ''U1'', ev_Channel = ''D1'', ev_Text = '' '',
                                ev_BotID = []\<rparr> '' ''],
            accepted := [Task ctx \<lparr>ev_User = ''U1'', ev_Channel = ''D1'', ev_Text = '' '',
                                   ev_BotID = []\<rparr> '' '']\<rparr>)
   \<and> TrimSpace '' '' = []"
  by (simp add: processDirectMessage_def Submit_def NewWorkerPool_def TrimSpace_def
      leadingSpace_def trailingSpace_def spaceRunes_def HasPrefix_def)

theorem blank_direct_message_witness:
  "map (\<lambda>t. case t of Task c e q \<Rightarrow> TrimSpace q)
     (case processDirectMessage None
             \<lparr>msg_User = ''U1'', msg_Channel = ''D1'', msg_Text = '' '', msg_BotID = [],
              msg_ChannelType = ''im''\<rparr> (NewWorkerPool 1) of
        Ok p \<Rightarrow> tasks p | Blocked \<Rightarrow> [] | Panic x \<Rightarrow> []) = [[]]"
  using blank_direct_message_submitted[of None] by simp

subsection \<open>The pool\<close>



text \<open>
  C9. In every schedule of a pool of \<open>n \<ge> 1\<close> workers after which \<^verbatim>\<open>Shutdown\<close> has
  returned, the tasks that have run are the tasks that were submitted, each as often as
  it was submitted: none is lost and none runs twice. The buffer is empty, every worker
  has left its loop, the channel is closed and a further \<^verbatim>\<open>Submit\<close> fails. And a
  \<^verbatim>\<open>Shutdown\<close> that waits is not stuck: the workers can finish what is left, after which
  it returns.
\<close>

theorem shutdown_runs_every_task:
  assumes "0 < n" and "run acts (NewWorkerPool n) = Ok p"
  shows "(shutdown p = Returned \<longrightarrow>
            mset (ran p) = mset (submissions acts) \<and> tasks p = [] \<and> closed p
          \<and> (\<forall>w \<in> set (workers p). w = Exited) \<and> length (workers p) = n
          \<and> Submit p task = Panic PoolClosed)
       \<and> (shutdown p = Waiting \<longrightarrow> (\<exists>more q. run more p = Ok q \<and> shutdown q = Returned))"
proof -
  have inv: "poolInv p" using poolInv_run[OF poolInv_New assms(2)] .
  have len: "length (workers p) = n"
    using workers_run[OF assms(2)] by (simp add: NewWorkerPool_def)
  have acc: "accepted p = submissions acts"
    using accepted_run[OF assms(2)] by (simp add: NewWorkerPool_def)
  have safe: "mset (ran p) = mset (submissions acts) \<and> tasks p = [] \<and> closed p
          \<and> (\<forall>w \<in> set (workers p). w = Exited) \<and> length (workers p) = n
          \<and> Submit p task = Panic PoolClosed" if ret: "shutdown p = Returned"
  proof -
    from inv have w: "wg p = sum_list (map alive (workers p))"
      by (simp add: poolInv_def)
    from inv ret have z: "wg p = 0"
      unfolding poolInv_def by (simp del: sum_list_eq_0_iff split: if_splits)
    have "sum_list (map alive (workers p)) = 0"
      unfolding w[symmetric] by (rule z)
    then have ex: "\<forall>w \<in> set (workers p). w = Exited" by (rule all_Exited)
    from len assms(1) obtain w where "w \<in> set (workers p)"
      by (cases "workers p") auto
    with ex have "Exited \<in> set (workers p)" by auto
    with inv have ct: "closed p" "tasks p = []" by (auto simp: poolInv_def split: if_splits)
    from inv have "mset (accepted p) = mset (tasks p) + inFlight (workers p) + mset (ran p)"
      by (simp add: poolInv_def)
    with ct inFlight_Exited[OF ex] acc have "mset (ran p) = mset (submissions acts)" by simp
    with ct ex len show ?thesis by (simp add: Submit_def)
  qed
  have live: "\<exists>more q. run more p = Ok q \<and> shutdown q = Returned" if "shutdown p = Waiting"
    using inv that by (rule shutdown_can_return)
  from safe live show ?thesis by blast
qed

theorem shutdown_runs_every_task_witness:
  "(0 :: nat) < 2
 \<and> run [CallSubmit 1, CallSubmit 2, CallSubmit 3, Receive 0, Receive 1, ShutdownClose,
         Finish 1, Finish 0, Receive 1, Finish 1, Leave 0, Leave 1, ShutdownWait]
      (NewWorkerPool 2) =
     Ok \<lparr>tasks = [], capacity = 4, closed = True, workers = [Exited, Exited], wg = 0,
         shutdown = Returned, accepted = [1, 2, 3 :: nat], ran = [2, 1, 3]\<rparr>
 \<and> mset [2, 1, 3 :: nat] = mset [1, 2, 3]
 \<and> run [CallSubmit 1, CallSubmit 2, CallSubmit 3, Receive 0, Receive 1, ShutdownClose]
      (NewWorkerPool 2) =
     Ok \<lparr>tasks = [3], capacity = 4, closed = True, workers = [Running 1, Running 2], wg = 2,
         shutdown = Waiting, accepted = [1, 2, 3 :: nat], ran = []\<rparr>
 \<and> (\<exists>more q.
       run more \<lparr>tasks = [3], capacity = 4, closed = True, workers = [Running 1, Running 2],
                 wg = 2, shutdown = Waiting, accepted = [1, 2, 3 :: nat], ran = []\<rparr> = Ok q
     \<and> shutdown q = Returned)"
proof -
  let ?acts = "[CallSubmit 1, CallSubmit 2, CallSubmit 3, Receive 0, Receive 1, ShutdownClose,
         Finish 1, Finish 0, Receive 1, Finish 1, Leave 0, Leave 1, ShutdownWait] :: nat action list"
  let ?p = "\<lparr>tasks = [], capacity = 4, closed = True, workers = [Exited, Exited], wg = 0,
         shutdown = Returned, accepted = [1, 2, 3 :: nat], ran = [2, 1, 3]\<rparr>"
  let ?half = "[CallSubmit 1, CallSubmit 2, CallSubmit 3, Receive 0, Receive 1, ShutdownClose]
         :: nat action list"
  let ?w = "\<lparr>tasks = [3], capacity = 4, closed = True, workers = [Running 1, Running 2],
         wg = 2, shutdown = Waiting, accepted = [1, 2, 3 :: nat], ran = []\<rparr>"
  have n: "(0 :: nat) < 2" by simp
  have r: "run ?acts (NewWorkerPool 2) = Ok ?p"
    by (simp add: NewWorkerPool_def Submit_def numeral_2_eq_2)
  have h: "run ?half (NewWorkerPool 2) = Ok ?w"
    by (simp add: NewWorkerPool_def Submit_def numeral_2_eq_2)
  have s: "shutdown ?p = Returned" and t: "shutdown ?w = Waiting" by simp_all
  have "mset (ran ?p) = mset (submissions ?acts)"
    using shutdown_runs_every_task[OF n r, THEN conjunct1, THEN mp, OF s, THEN conjunct1] .
  moreover have "\<exists>more q. run more ?w = Ok q \<and> shutdown q = Returned"
    using shutdown_runs_every_task[OF n h, THEN conjunct2, THEN mp, OF t] .
  ultimately show ?thesis
    using n r h by simp
qed

end
